theory Spec2Isabelle
  imports Complex_Main "HOL-Library.Char_ord" "HOL-Library.List_Lexorder"
    "HOL-Library.Product_Lexorder"
begin

section \<open>The delayed summed variable of \<^verbatim>\<open>delayedSummedVariable.py\<close>\<close>

text \<open>
  The script builds a Brian2 network: an input group \<open>G\<close> whose variable \<open>v\<close> grows by
  \<open>0.4\<close> per millisecond and is reset to \<open>0\<close> above \<open>4.0\<close>, an output group \<open>H\<close> with the
  summed variable \<open>I\<close>, and all-to-all synapses \<open>S\<close> that carry a weight \<open>w\<close>, an integer
  \<open>delay_step\<close> and the looked-up value \<open>v_delayed\<close>. A history array \<open>v_buffer\<close> of
  \<open>buffer_size\<close> rows keeps the past values of \<open>v\<close>; \<open>buffer_pointer\<close> is the shared row
  pointer.

  Scalars are \<open>float64\<close> in the script and exact reals here: the development is about which
  value is moved where, not about rounding. Integers are unbounded, as the pointer and the
  delays stay far below the \<open>int32\<close> range.
\<close>

subsection \<open>Data\<close>

datatype error = ValueError | IndexError

text \<open>One synapse: the fields of \<open>S\<close> at one synapse index (\<open>i\<close>, \<open>j\<close>, \<open>w\<close>, \<open>delay_step\<close>,
  \<open>v_delayed\<close>).\<close>

record synapse =
  S_i :: nat
  S_j :: nat
  S_w :: real
  S_delay_step :: int
  S_v_delayed :: real

text \<open>The state of the network between two code objects. \<open>G_spikes\<close> is the spike space of
  \<open>G\<close>: what the thresholder hands to the resetter.\<close>

record network =
  buffer_size :: int
  G_v :: "real list"
  G_buffer_pointer :: int
  G_v_buffer :: "real list list"
  G_spikes :: "nat list"
  H_I :: "real list"
  S_synapses :: "synapse list"

subsection \<open>NumPy indexing and remainder\<close>

text \<open>An index into an axis of length \<open>n\<close>: negative indices count from the end, anything
  else out of range raises \<open>IndexError\<close>.\<close>

definition np_index :: "nat \<Rightarrow> int \<Rightarrow> error + nat" where
  "np_index n k =
     (if 0 \<le> k \<and> k < int n then Inr (nat k)
      else if - int n \<le> k \<and> k < 0 then Inr (nat (k + int n))
      else Inl IndexError)"

text \<open>\<open>%\<close> on integers: the result has the sign of the divisor, as \<open>mod\<close> on \<open>int\<close>; a zero
  divisor gives \<open>0\<close> in NumPy (with a warning).\<close>

definition np_mod :: "int \<Rightarrow> int \<Rightarrow> int" where
  "np_mod a b = (if b = 0 then 0 else a mod b)"

subsection \<open>The two user functions\<close>

text \<open>\<^verbatim>\<open>v_buffer[buffer_pointer, :] = v\<close>: the row is overwritten by \<open>v\<close>; a \<open>v\<close> of length one is
  broadcast, any other length mismatch raises \<open>ValueError\<close>.\<close>

definition update_v_buffer :: "real list \<Rightarrow> real list list \<Rightarrow> int \<Rightarrow> error + real list list" where
  "update_v_buffer v v_buffer buffer_pointer =
     (case np_index (length v_buffer) buffer_pointer of
        Inl e \<Rightarrow> Inl e
      | Inr r \<Rightarrow>
          if length v = length (v_buffer ! r) then Inr (v_buffer[r := v])
          else if length v = 1 then Inr (v_buffer[r := replicate (length (v_buffer ! r)) (hd v)])
          else Inl ValueError)"

text \<open>\<^verbatim>\<open>v_buffer_from_synapse[(buffer_pointer_from_synapse - delay_step) % buffer_size, i]\<close>,
  for one synapse.\<close>

definition get_v_delayed :: "real list list \<Rightarrow> int \<Rightarrow> int \<Rightarrow> nat \<Rightarrow> int \<Rightarrow> error + real" where
  "get_v_delayed v_buffer_from_synapse buffer_pointer_from_synapse bsize i delay_step =
     (case np_index (length v_buffer_from_synapse)
             (np_mod (buffer_pointer_from_synapse - delay_step) bsize) of
        Inl e \<Rightarrow> Inl e
      | Inr r \<Rightarrow>
          (case np_index (length (v_buffer_from_synapse ! r)) (int i) of
             Inl e \<Rightarrow> Inl e
           | Inr c \<Rightarrow> Inr (v_buffer_from_synapse ! r ! c)))"

subsection \<open>The code objects of the network and their schedule\<close>

text \<open>
  The objects that change the state within a time step:
  \<^item> \<open>buffer_updater\<close>, the \<^verbatim>\<open>G.run_regularly(update_code)\<close>;
  \<^item> \<open>get_new_v_delayed\<close>, the \<^verbatim>\<open>S.run_regularly(update_code_syn)\<close>;
  \<^item> \<open>summed_variable_I_post\<close>, the updater of \<^verbatim>\<open>I_post = v_delayed*w : 1 (summed)\<close>;
  \<^item> \<open>stateupdater\<close>, \<open>thresholder\<close> and \<open>resetter\<close> of \<open>G\<close>, from its equation,
    \<^verbatim>\<open>threshold='v > 4.0'\<close> and \<^verbatim>\<open>reset='v = 0.0'\<close>.

  The script passes no \<open>when\<close> and no \<open>order\<close>, so each object sits in the slot Brian2 gives it
  by default: \<open>run_regularly\<close> in \<open>start\<close>, the summed-variable updater in \<open>groups\<close> with the
  order of its target minus one, the state updater in \<open>groups\<close>, the thresholder in
  \<open>thresholds\<close>, the resetter in \<open>resets\<close>. The network runs its objects sorted by slot, then
  order, then name; the names are the default ones (\<open>G\<close> is \<open>neurongroup\<close>, \<open>S\<close> is
  \<open>synapses\<close>) and only decide between the two \<open>run_regularly\<close> objects. The groups
  themselves and the state updater of \<open>H\<close>, which has no differential equation, are scheduled
  too and change nothing; they are left out.
\<close>

datatype code_object =
  buffer_updater | get_new_v_delayed | summed_variable_I_post
  | stateupdater | thresholder | resetter

definition schedule_slots :: "string list" where
  "schedule_slots = [''start'', ''groups'', ''thresholds'', ''synapses'', ''resets'', ''end'']"

fun slot_index :: "string list \<Rightarrow> string \<Rightarrow> nat" where
  "slot_index [] s = 0"
| "slot_index (x # xs) s = (if x = s then 0 else Suc (slot_index xs s))"

fun when_slot :: "code_object \<Rightarrow> string" where
  "when_slot buffer_updater = ''start''"
| "when_slot get_new_v_delayed = ''start''"
| "when_slot summed_variable_I_post = ''groups''"
| "when_slot stateupdater = ''groups''"
| "when_slot thresholder = ''thresholds''"
| "when_slot resetter = ''resets''"

fun order_of :: "code_object \<Rightarrow> int" where
  "order_of summed_variable_I_post = 0 - 1"
| "order_of ob = 0"

fun name_of :: "code_object \<Rightarrow> string" where
  "name_of buffer_updater = ''neurongroup_run_regularly''"
| "name_of get_new_v_delayed = ''synapses_run_regularly''"
| "name_of summed_variable_I_post = ''synapses_summed_variable_I_post''"
| "name_of stateupdater = ''neurongroup_stateupdater''"
| "name_of thresholder = ''neurongroup_spike_thresholder''"
| "name_of resetter = ''neurongroup_spike_resetter''"

definition sort_key_of :: "code_object \<Rightarrow> nat \<times> int \<times> string" where
  "sort_key_of ob = (slot_index schedule_slots (when_slot ob), order_of ob, name_of ob)"

text \<open>The objects in the order the script creates them, and the order in which a time step
  runs them.\<close>

definition network_objects :: "code_object list" where
  "network_objects =
     [stateupdater, thresholder, resetter, buffer_updater, summed_variable_I_post,
      get_new_v_delayed]"

definition schedule :: "code_object list" where
  "schedule = sort_key sort_key_of network_objects"

subsection \<open>What each code object does\<close>

fun map_err :: "('a \<Rightarrow> error + 'b) \<Rightarrow> 'a list \<Rightarrow> error + 'b list" where
  "map_err f [] = Inr []"
| "map_err f (x # xs) =
     (case f x of
        Inl e \<Rightarrow> Inl e
      | Inr y \<Rightarrow> (case map_err f xs of Inl e \<Rightarrow> Inl e | Inr ys \<Rightarrow> Inr (y # ys)))"

text \<open>\<^verbatim>\<open>buffer_pointer = (buffer_pointer + 1) % buffer_size\<close>, then
  \<^verbatim>\<open>update_v_buffer(v, v_buffer, buffer_pointer)\<close>.\<close>

definition run_buffer_updater :: "network \<Rightarrow> error + network" where
  "run_buffer_updater s =
     (let p = np_mod (G_buffer_pointer s + 1) (buffer_size s) in
      case update_v_buffer (G_v s) (G_v_buffer s) p of
        Inl e \<Rightarrow> Inl e
      | Inr vb \<Rightarrow> Inr (s\<lparr>G_buffer_pointer := p, G_v_buffer := vb\<rparr>))"

text \<open>\<^verbatim>\<open>v_delayed = get_v_delayed(v_buffer_from_synapse, buffer_pointer_from_synapse,
  buffer_size, i, delay_step)\<close>, for every synapse.\<close>

definition lookup_synapse :: "network \<Rightarrow> synapse \<Rightarrow> error + synapse" where
  "lookup_synapse s c =
     (case get_v_delayed (G_v_buffer s) (G_buffer_pointer s) (buffer_size s) (S_i c)
             (S_delay_step c) of
        Inl e \<Rightarrow> Inl e
      | Inr x \<Rightarrow> Inr (c\<lparr>S_v_delayed := x\<rparr>))"

definition run_get_new_v_delayed :: "network \<Rightarrow> error + network" where
  "run_get_new_v_delayed s =
     (case map_err (lookup_synapse s) (S_synapses s) of
        Inl e \<Rightarrow> Inl e
      | Inr cs \<Rightarrow> Inr (s\<lparr>S_synapses := cs\<rparr>))"

text \<open>\<^verbatim>\<open>I_post = v_delayed*w : 1 (summed)\<close>: every \<open>I\<close> is overwritten by the sum over the
  synapses that end at it.\<close>

definition summed_I_post :: "synapse list \<Rightarrow> nat \<Rightarrow> real" where
  "summed_I_post cs j = sum_list (map (\<lambda>c. S_v_delayed c * S_w c) (filter (\<lambda>c. S_j c = j) cs))"

definition run_summed_variable :: "network \<Rightarrow> network" where
  "run_summed_variable s =
     s\<lparr>H_I := map (summed_I_post (S_synapses s)) [0..<length (H_I s)]\<rparr>"

text \<open>\<^verbatim>\<open>dv/dt = 0.4/ms\<close> with \<open>euler\<close> and \<^verbatim>\<open>defaultclock.dt = 1*ms\<close>.\<close>

definition dt_ms :: real where
  "dt_ms = 1"

definition run_stateupdater :: "network \<Rightarrow> network" where
  "run_stateupdater s = s\<lparr>G_v := map (\<lambda>x. x + 0.4 * dt_ms) (G_v s)\<rparr>"

text \<open>\<^verbatim>\<open>threshold='v > 4.0'\<close> fills the spike space; \<^verbatim>\<open>reset='v = 0.0'\<close> runs on the indices
  in it.\<close>

definition run_thresholder :: "network \<Rightarrow> network" where
  "run_thresholder s = s\<lparr>G_spikes := filter (\<lambda>k. G_v s ! k > 4.0) [0..<length (G_v s)]\<rparr>"

definition run_resetter :: "network \<Rightarrow> network" where
  "run_resetter s =
     s\<lparr>G_v := map (\<lambda>k. if k \<in> set (G_spikes s) then 0.0 else G_v s ! k) [0..<length (G_v s)]\<rparr>"

fun run_object :: "code_object \<Rightarrow> network \<Rightarrow> error + network" where
  "run_object buffer_updater s = run_buffer_updater s"
| "run_object get_new_v_delayed s = run_get_new_v_delayed s"
| "run_object summed_variable_I_post s = Inr (run_summed_variable s)"
| "run_object stateupdater s = Inr (run_stateupdater s)"
| "run_object thresholder s = Inr (run_thresholder s)"
| "run_object resetter s = Inr (run_resetter s)"

fun run_objects :: "code_object list \<Rightarrow> network \<Rightarrow> error + network" where
  "run_objects [] s = Inr s"
| "run_objects (ob # obs) s =
     (case run_object ob s of Inl e \<Rightarrow> Inl e | Inr s' \<Rightarrow> run_objects obs s')"

text \<open>One time step, and \<open>n\<close> time steps (\<^verbatim>\<open>run(simulation_time)\<close> with
  \<open>n = simulation_time / dt\<close>).\<close>

definition tick :: "network \<Rightarrow> error + network" where
  "tick s = run_objects schedule s"

fun run_ticks :: "nat \<Rightarrow> network \<Rightarrow> error + network" where
  "run_ticks 0 s = Inr s"
| "run_ticks (Suc n) s = (case run_ticks n s of Inl e \<Rightarrow> Inl e | Inr s' \<Rightarrow> tick s')"

subsection \<open>Construction\<close>

definition delay_max :: int where
  "delay_max = 10"

text \<open>\<^verbatim>\<open>S.connect()\<close>: every pair, source-major.\<close>

definition connect :: "nat \<Rightarrow> (nat \<times> nat) list" where
  "connect n = List.product [0..<n] [0..<n]"

definition new_synapse :: "(nat \<times> nat) \<times> int \<Rightarrow> synapse" where
  "new_synapse x =
     \<lparr>S_i = fst (fst x), S_j = snd (fst x), S_w = 0, S_delay_step = snd x, S_v_delayed = 0\<rparr>"

text \<open>
  The part of \<open>Simulation\<close> before \<open>run\<close>, as a function of \<open>nb_neurons\<close> and of the list
  \<open>delays\<close> that the random generator returned. \<open>NeuronGroup\<close> refuses a size below one;
  \<open>max\<close> of an empty list raises; a negative array size raises; setting \<open>S.delay_step\<close> from
  a list of another length than the number of synapses raises. Every array starts at zero,
  and the script never sets \<open>w\<close>.
\<close>

definition Simulation_setup :: "int \<Rightarrow> int list \<Rightarrow> error + network" where
  "Simulation_setup nb_neurons delays =
     (if nb_neurons < 1 then Inl ValueError
      else if delays = [] then Inl ValueError
      else if 1 + Max (set delays) < 0 then Inl ValueError
      else if length delays \<noteq> length (connect (nat nb_neurons)) then Inl ValueError
      else
        Inr \<lparr>buffer_size = 1 + Max (set delays),
             G_v = replicate (nat nb_neurons) 0,
             G_buffer_pointer = 0,
             G_v_buffer = replicate (nat (1 + Max (set delays))) (replicate (nat nb_neurons) 0),
             G_spikes = [],
             H_I = replicate (nat nb_neurons) 0,
             S_synapses = map new_synapse (zip (connect (nat nb_neurons)) delays)\<rparr>)"

definition Simulation :: "int \<Rightarrow> int list \<Rightarrow> nat \<Rightarrow> error + network" where
  "Simulation nb_neurons delays n =
     (case Simulation_setup nb_neurons delays of
        Inl e \<Rightarrow> Inl e
      | Inr s \<Rightarrow> run_ticks n s)"

text \<open>\<^verbatim>\<open>randint(1, delay_max)\<close> is NumPy's: every draw \<open>d\<close> has \<open>1 \<le> d < delay_max\<close>. The list
  comprehension draws \<open>nb_neurons**2\<close> of them.\<close>

definition drawn_delays :: "int \<Rightarrow> int list \<Rightarrow> bool" where
  "drawn_delays nb_neurons delays \<longleftrightarrow>
     length delays = nat (nb_neurons * nb_neurons) \<and> list_all (\<lambda>d. 1 \<le> d \<and> d < delay_max) delays"

subsection \<open>Shapes, fresh networks and what is observed at a tick\<close>

text \<open>The shapes the script sets up: \<open>v_buffer\<close> has \<open>buffer_size\<close> rows, one column per
  neuron of \<open>G\<close>; the pointer is a row index; every synapse starts at a neuron of \<open>G\<close>.\<close>

definition wf :: "network \<Rightarrow> bool" where
  "wf s \<longleftrightarrow>
     1 \<le> buffer_size s \<and> length (G_v_buffer s) = nat (buffer_size s) \<and>
     list_all (\<lambda>row. length row = length (G_v s)) (G_v_buffer s) \<and>
     0 \<le> G_buffer_pointer s \<and> G_buffer_pointer s < buffer_size s \<and>
     list_all (\<lambda>c. S_i c < length (G_v s)) (S_synapses s)"

text \<open>A network before its first time step: the pointer is \<open>0\<close> and the buffer holds zeros.
  The weights, the delays and the start value of \<open>v\<close> are left open.\<close>

definition fresh :: "network \<Rightarrow> bool" where
  "fresh s \<longleftrightarrow>
     wf s \<and> G_buffer_pointer s = 0 \<and>
     G_v_buffer s = replicate (nat (buffer_size s)) (replicate (length (G_v s)) 0)"

definition delays_ok :: "network \<Rightarrow> bool" where
  "delays_ok s \<longleftrightarrow>
     list_all (\<lambda>c. 1 \<le> S_delay_step c \<and> S_delay_step c \<le> buffer_size s - 1) (S_synapses s)"

text \<open>Time steps are counted from \<open>0\<close>. \<open>G_v_at s t\<close> is \<open>v\<close> when step \<open>t\<close> begins, which is
  what step \<open>t\<close> writes into the buffer; the other observers read the state when step \<open>t\<close>
  has ended. A run that raised shows the empty list.\<close>

definition G_v_at :: "network \<Rightarrow> nat \<Rightarrow> real list" where
  "G_v_at s t = (case run_ticks t s of Inl e \<Rightarrow> [] | Inr s' \<Rightarrow> G_v s')"

definition H_I_at :: "network \<Rightarrow> nat \<Rightarrow> real list" where
  "H_I_at s t = (case run_ticks (Suc t) s of Inl e \<Rightarrow> [] | Inr s' \<Rightarrow> H_I s')"

definition v_delayed_at :: "network \<Rightarrow> nat \<Rightarrow> real list" where
  "v_delayed_at s t =
     (case run_ticks (Suc t) s of Inl e \<Rightarrow> [] | Inr s' \<Rightarrow> map S_v_delayed (S_synapses s'))"

definition v_buffer_at :: "network \<Rightarrow> nat \<Rightarrow> real list list" where
  "v_buffer_at s t = (case run_ticks (Suc t) s of Inl e \<Rightarrow> [] | Inr s' \<Rightarrow> G_v_buffer s')"

definition row_written_at :: "network \<Rightarrow> nat \<Rightarrow> real list" where
  "row_written_at s t =
     (case run_ticks (Suc t) s of
        Inl e \<Rightarrow> []
      | Inr s' \<Rightarrow> G_v_buffer s' ! nat (G_buffer_pointer s'))"

definition spikes_at :: "network \<Rightarrow> nat \<Rightarrow> nat list" where
  "spikes_at s t = (case run_ticks (Suc t) s of Inl e \<Rightarrow> [] | Inr s' \<Rightarrow> G_spikes s')"

definition buffer_pointer_at :: "network \<Rightarrow> nat \<Rightarrow> int" where
  "buffer_pointer_at s t =
     (case run_ticks (Suc t) s of Inl e \<Rightarrow> 0 | Inr s' \<Rightarrow> G_buffer_pointer s')"

text \<open>\<open>v\<close> in step \<open>t\<close> when the resetter is about to run: after the state update and the
  threshold test of that step.\<close>

definition G_v_pre_reset_at :: "network \<Rightarrow> nat \<Rightarrow> real list" where
  "G_v_pre_reset_at s t =
     (case run_ticks t s of
        Inl e \<Rightarrow> []
      | Inr s' \<Rightarrow>
          (case run_objects (takeWhile (\<lambda>ob. ob \<noteq> resetter) schedule) s' of
             Inl e \<Rightarrow> []
           | Inr s'' \<Rightarrow> G_v s''))"

text \<open>The value a synapse is due at step \<open>t\<close>: the \<open>v\<close> of its source \<open>delay_step\<close> steps
  earlier, and the initial zero of the buffer while fewer steps than that have run.\<close>

definition delayed_v :: "network \<Rightarrow> nat \<Rightarrow> synapse \<Rightarrow> real" where
  "delayed_v s t c =
     (if S_delay_step c \<le> int t then G_v_at s (t - nat (S_delay_step c)) ! S_i c else 0)"

text \<open>The position of a code object in the schedule of a time step.\<close>

definition position :: "code_object \<Rightarrow> nat" where
  "position ob = length (takeWhile (\<lambda>x. x \<noteq> ob) schedule)"

definition runs_before :: "code_object \<Rightarrow> code_object \<Rightarrow> bool" where
  "runs_before a b \<longleftrightarrow> position a < position b"

text \<open>What one time step does to \<open>v\<close>: the Euler step, then the reset of what is above the
  threshold.\<close>

definition reset_after_update :: "real \<Rightarrow> real" where
  "reset_after_update x = (if x + 0.4 * dt_ms > 4.0 then 0.0 else x + 0.4 * dt_ms)"

text \<open>What a synapse is as a connection: source, target, weight and delay. A time step
  changes none of them.\<close>

definition connection :: "synapse \<Rightarrow> nat \<times> nat \<times> real \<times> int" where
  "connection c = (S_i c, S_j c, S_w c, S_delay_step c)"

text \<open>A network of one source, one target and one synapse of weight \<open>w\<close> and delay \<open>d\<close>,
  before its first time step: what the script builds for one neuron, with the weight set.\<close>

definition one_synapse :: "real \<Rightarrow> int \<Rightarrow> network" where
  "one_synapse w d =
     \<lparr>buffer_size = 1 + d, G_v = [0], G_buffer_pointer = 0,
      G_v_buffer = replicate (nat (1 + d)) [0], G_spikes = [], H_I = [0],
      S_synapses = [\<lparr>S_i = 0, S_j = 0, S_w = w, S_delay_step = d, S_v_delayed = 0\<rparr>]\<rparr>"

subsection \<open>Auxiliary notions\<close>

text \<open>The state a well-shaped network reaches by each object of a time step, written
  without the error cases; the lemmas below show that these are what the code objects return.\<close>

definition looked_up :: "network \<Rightarrow> synapse \<Rightarrow> real" where
  "looked_up s c =
     G_v_buffer s ! nat ((G_buffer_pointer s - S_delay_step c) mod buffer_size s) ! S_i c"

definition written :: "network \<Rightarrow> network" where
  "written s =
     s\<lparr>G_buffer_pointer := (G_buffer_pointer s + 1) mod buffer_size s,
       G_v_buffer := (G_v_buffer s)[nat ((G_buffer_pointer s + 1) mod buffer_size s) := G_v s]\<rparr>"

definition delayed :: "network \<Rightarrow> network" where
  "delayed s = s\<lparr>S_synapses := map (\<lambda>c. c\<lparr>S_v_delayed := looked_up s c\<rparr>) (S_synapses s)\<rparr>"

definition after_tick :: "network \<Rightarrow> network" where
  "after_tick s =
     run_resetter (run_thresholder (run_stateupdater (run_summed_variable (delayed (written s)))))"

definition state_at :: "network \<Rightarrow> nat \<Rightarrow> network" where
  "state_at s t = (after_tick ^^ t) s"

section \<open>Properties\<close>

lemma schedule_eq:
  "schedule =
     [buffer_updater, get_new_v_delayed, summed_variable_I_post, stateupdater, thresholder,
      resetter]"
  by code_simp

subsection \<open>The code objects on well-shaped networks\<close>

lemma np_index_in_range: "0 \<le> k \<Longrightarrow> k < int n \<Longrightarrow> np_index n k = Inr (nat k)"
  by (simp add: np_index_def)

lemma np_mod_pos: "1 \<le> b \<Longrightarrow> np_mod a b = a mod b"
  by (simp add: np_mod_def)

lemma run_buffer_updater_wf:
  assumes "wf s"
  shows "run_buffer_updater s =
     Inr (s\<lparr>G_buffer_pointer := (G_buffer_pointer s + 1) mod buffer_size s,
            G_v_buffer := (G_v_buffer s)[nat ((G_buffer_pointer s + 1) mod buffer_size s) := G_v s]\<rparr>)"
proof -
  let ?p = "(G_buffer_pointer s + 1) mod buffer_size s"
  from assms have bs: "1 \<le> buffer_size s" and len: "length (G_v_buffer s) = nat (buffer_size s)"
    and rows: "list_all (\<lambda>row. length row = length (G_v s)) (G_v_buffer s)"
    by (simp_all add: wf_def)
  have p: "0 \<le> ?p" "?p < buffer_size s" using bs by simp_all
  then have idx: "np_index (length (G_v_buffer s)) ?p = Inr (nat ?p)"
    using len by (simp add: np_index_in_range)
  have "nat ?p < length (G_v_buffer s)" using p len by simp
  then have "length (G_v_buffer s ! nat ?p) = length (G_v s)"
    using rows by (simp add: list_all_length)
  then show ?thesis
    using idx bs by (simp add: run_buffer_updater_def update_v_buffer_def np_mod_pos Let_def)
qed

lemma get_v_delayed_wf:
  assumes "1 \<le> bs" "length vb = nat bs" "list_all (\<lambda>row. length row = n) vb" "i < n"
  shows "get_v_delayed vb p bs i d = Inr (vb ! nat ((p - d) mod bs) ! i)"
proof -
  let ?r = "(p - d) mod bs"
  have r: "0 \<le> ?r" "?r < bs" using assms(1) by simp_all
  then have idx: "np_index (length vb) ?r = Inr (nat ?r)"
    using assms(2) by (simp add: np_index_in_range)
  have "nat ?r < length vb" using r assms(2) by simp
  then have "length (vb ! nat ?r) = n" using assms(3) by (simp add: list_all_length)
  then have "np_index (length (vb ! nat ?r)) (int i) = Inr i"
    using assms(4) by (simp add: np_index_def)
  then show ?thesis using idx assms(1) by (simp add: get_v_delayed_def np_mod_pos)
qed

lemma map_err_all_ok:
  "(\<And>x. x \<in> set xs \<Longrightarrow> f x = Inr (g x)) \<Longrightarrow> map_err f xs = Inr (map g xs)"
  by (induction xs) simp_all

lemma run_get_new_v_delayed_wf:
  assumes "wf s"
  shows "run_get_new_v_delayed s =
     Inr (s\<lparr>S_synapses := map (\<lambda>c. c\<lparr>S_v_delayed := looked_up s c\<rparr>) (S_synapses s)\<rparr>)"
proof -
  have "lookup_synapse s c = Inr (c\<lparr>S_v_delayed := looked_up s c\<rparr>)"
    if "c \<in> set (S_synapses s)" for c
  proof -
    from that assms have "S_i c < length (G_v s)" by (simp add: wf_def list_all_iff)
    with assms have "get_v_delayed (G_v_buffer s) (G_buffer_pointer s) (buffer_size s) (S_i c)
        (S_delay_step c) = Inr (looked_up s c)"
      unfolding looked_up_def by (intro get_v_delayed_wf) (simp_all add: wf_def)
    then show ?thesis by (simp add: lookup_synapse_def)
  qed
  then have "map_err (lookup_synapse s) (S_synapses s) =
      Inr (map (\<lambda>c. c\<lparr>S_v_delayed := looked_up s c\<rparr>) (S_synapses s))"
    by (rule map_err_all_ok)
  then show ?thesis by (simp add: run_get_new_v_delayed_def)
qed

lemma wf_buffer_updater:
  assumes "wf s"
  shows "wf (s\<lparr>G_buffer_pointer := (G_buffer_pointer s + 1) mod buffer_size s,
            G_v_buffer := (G_v_buffer s)[nat ((G_buffer_pointer s + 1) mod buffer_size s) := G_v s]\<rparr>)"
  using assms by (auto simp: wf_def list_all_iff dest: set_update_subset_insert[THEN subsetD])

lemma wf_written: "wf s \<Longrightarrow> wf (written s)"
  unfolding written_def by (rule wf_buffer_updater)

lemma wf_delayed: "wf s \<Longrightarrow> wf (delayed s)"
  by (simp add: wf_def delayed_def list_all_iff)

lemma tick_wf: 
  assumes "wf s"
  shows "tick s = Inr (after_tick s)"
proof -
  have 1: "run_buffer_updater s = Inr (written s)"
    using assms by (simp add: run_buffer_updater_wf written_def)
  have 2: "run_get_new_v_delayed (written s) = Inr (delayed (written s))"
    using wf_written[OF assms] by (simp add: run_get_new_v_delayed_wf delayed_def)
  show ?thesis
    by (simp add: tick_def schedule_eq 1 2 after_tick_def)
qed

lemma G_v_after_tick: "G_v (after_tick s) = map reset_after_update (G_v s)"
  by (rule nth_equalityI)
    (simp_all add: after_tick_def run_resetter_def run_thresholder_def run_stateupdater_def
      run_summed_variable_def delayed_def written_def reset_after_update_def)

lemma after_tick_fields:
  "buffer_size (after_tick s) = buffer_size s"
  "G_buffer_pointer (after_tick s) = (G_buffer_pointer s + 1) mod buffer_size s"
  "G_v_buffer (after_tick s) = (G_v_buffer s)[nat ((G_buffer_pointer s + 1) mod buffer_size s) := G_v s]"
  "S_synapses (after_tick s) = map (\<lambda>c. c\<lparr>S_v_delayed := looked_up (written s) c\<rparr>) (S_synapses s)"
  "H_I (after_tick s) = map (summed_I_post (S_synapses (after_tick s))) [0..<length (H_I s)]"
  "G_spikes (after_tick s) = filter (\<lambda>k. map (\<lambda>x. x + 0.4 * dt_ms) (G_v s) ! k > 4.0) [0..<length (G_v s)]"
  by (simp_all add: after_tick_def run_resetter_def run_thresholder_def run_stateupdater_def
      run_summed_variable_def delayed_def written_def)

lemma wf_after_tick: "wf s \<Longrightarrow> wf (after_tick s)"
proof -
  assume "wf s"
  then have "wf (delayed (written s))" by (intro wf_delayed wf_written)
  then show ?thesis
    unfolding wf_def after_tick_fields G_v_after_tick
    by (simp add: delayed_def written_def list_all_iff)
qed

lemma state_at_0: "state_at s 0 = s"
  by (simp add: state_at_def)

lemma state_at_Suc: "state_at s (Suc t) = after_tick (state_at s t)"
  by (simp add: state_at_def)

lemma wf_state_at: "wf s \<Longrightarrow> wf (state_at s t)"
  by (induction t) (simp_all add: state_at_0 state_at_Suc wf_after_tick)

lemma run_ticks_wf: "wf s \<Longrightarrow> run_ticks t s = Inr (state_at s t)"
  by (induction t) (simp_all add: state_at_0 state_at_Suc tick_wf wf_state_at)

lemma connection_v_delayed: "connection (c\<lparr>S_v_delayed := x\<rparr>) = connection c"
  by (simp add: connection_def)

lemma state_at_static:
  "buffer_size (state_at s t) = buffer_size s"
  "length (G_v (state_at s t)) = length (G_v s)"
  "length (H_I (state_at s t)) = length (H_I s)"
  "map connection (S_synapses (state_at s t)) = map connection (S_synapses s)"
  by (induction t)
    (simp_all add: state_at_0 state_at_Suc after_tick_fields G_v_after_tick
      connection_v_delayed comp_def)

lemma G_v_state_at: "G_v (state_at s t) = map (reset_after_update ^^ t) (G_v s)"
  by (induction t) (simp_all add: state_at_0 state_at_Suc G_v_after_tick)

lemma pointer_state_at:
  "fresh s \<Longrightarrow> G_buffer_pointer (state_at s t) = int t mod buffer_size s"
proof (induction t)
  case 0
  then show ?case by (simp add: state_at_0 fresh_def wf_def)
next
  case (Suc t)
  then show ?case
    by (simp add: state_at_Suc after_tick_fields state_at_static mod_add_left_eq mod_add_right_eq add.commute)
qed

lemma mod_shift_neq:
  fixes a e b :: int
  assumes "0 < e" "e < b"
  shows "(a - e) mod b \<noteq> a mod b"
proof
  assume "(a - e) mod b = a mod b"
  then have "b dvd (a - e) - a" by (simp add: mod_eq_dvd_iff)
  then have "b dvd e" by simp
  with assms show False by (simp add: zdvd_not_zless)
qed

lemma history:
  assumes "fresh s" "e < nat (buffer_size s)"
  shows "G_v_buffer (state_at s t) ! nat ((int t - int e) mod buffer_size s) =
     (if e < t then G_v (state_at s (t - 1 - e)) else replicate (length (G_v s)) 0)"
  using assms(2)
proof (induction t arbitrary: e)
  case 0
  have "0 \<le> (- int e) mod buffer_size s" "(- int e) mod buffer_size s < buffer_size s"
    using assms(1) by (simp_all add: fresh_def wf_def)
  then have "nat ((- int e) mod buffer_size s) < nat (buffer_size s)" by simp
  then show ?case using assms(1) by (simp add: state_at_0 fresh_def)
next
  case (Suc t)
  let ?b = "buffer_size s"
  let ?st = "state_at s t"
  have b: "1 \<le> ?b" using assms(1) by (simp add: fresh_def wf_def)
  have wfst: "wf ?st" using assms(1) by (simp add: fresh_def wf_state_at)
  have len: "length (G_v_buffer ?st) = nat ?b"
    using wfst by (simp add: wf_def state_at_static)
  have buf: "G_v_buffer (state_at s (Suc t)) =
      (G_v_buffer ?st)[nat (int (Suc t) mod ?b) := G_v ?st]"
    using assms(1)
    by (simp add: state_at_Suc after_tick_fields state_at_static pointer_state_at
        mod_add_left_eq mod_add_right_eq add.commute)
  show ?case
  proof (cases "e = 0")
    case True
    have "nat (int (Suc t) mod ?b) < length (G_v_buffer ?st)"
      using b len by simp
    then show ?thesis using True by (simp add: buf)
  next
    case False
    then have e: "0 < int e" "int e < ?b" using Suc.prems by simp_all
    have neq: "(int (Suc t) - int e) mod ?b \<noteq> int (Suc t) mod ?b"
      using e by (rule mod_shift_neq)
    have "nat ((int (Suc t) - int e) mod ?b) \<noteq> nat (int (Suc t) mod ?b)"
      using neq b by (simp add: nat_eq_iff)
    have shift: "int (Suc t) - int e = int t - int (e - 1)" using False by simp
    have "G_v_buffer (state_at s (Suc t)) ! nat ((int (Suc t) - int e) mod ?b) =
        G_v_buffer ?st ! nat ((int (Suc t) - int e) mod ?b)"
      using \<open>nat ((int (Suc t) - int e) mod ?b) \<noteq> nat (int (Suc t) mod ?b)\<close>
      by (simp add: buf)
    also have "\<dots> = G_v_buffer ?st ! nat ((int t - int (e - 1)) mod ?b)"
      by (simp only: shift)
    also have "\<dots> =
        (if e - 1 < t then G_v (state_at s (t - 1 - (e - 1))) else replicate (length (G_v s)) 0)"
      using Suc.prems by (intro Suc.IH) simp
    also have "\<dots> = (if e < Suc t then G_v (state_at s (Suc t - 1 - e))
        else replicate (length (G_v s)) 0)"
      using False by (auto simp: Suc_diff_le)
    finally show ?thesis .
  qed
qed

lemma fresh_wf: "fresh s \<Longrightarrow> wf s"
  by (simp add: fresh_def)

lemma G_v_at_wf: "wf s \<Longrightarrow> G_v_at s t = G_v (state_at s t)"
  by (simp add: G_v_at_def run_ticks_wf)

lemma observers_wf:
  assumes "wf s"
  shows "H_I_at s t = H_I (state_at s (Suc t))"
    and "v_delayed_at s t = map S_v_delayed (S_synapses (state_at s (Suc t)))"
    and "v_buffer_at s t = G_v_buffer (state_at s (Suc t))"
    and "row_written_at s t =
      G_v_buffer (state_at s (Suc t)) ! nat (G_buffer_pointer (state_at s (Suc t)))"
    and "spikes_at s t = G_spikes (state_at s (Suc t))"
  using assms
  by (simp_all add: H_I_at_def v_delayed_at_def v_buffer_at_def row_written_at_def spikes_at_def
      run_ticks_wf del: run_ticks.simps)

lemma looked_up_written:
  "looked_up (written s) c =
     G_v_buffer (after_tick s) ! nat ((G_buffer_pointer (after_tick s) - S_delay_step c)
       mod buffer_size s) ! S_i c"
  by (simp add: looked_up_def written_def after_tick_fields)

lemma looked_up_history:
  assumes "fresh s" "1 \<le> S_delay_step c" "S_delay_step c \<le> buffer_size s - 1"
    "S_i c < length (G_v s)"
  shows "looked_up (written (state_at s t)) c = delayed_v s t c"
proof -
  let ?b = "buffer_size s"
  let ?d = "S_delay_step c"
  have e: "nat ?d < nat ?b" using assms(2,3) by simp
  have "looked_up (written (state_at s t)) c =
      G_v_buffer (state_at s (Suc t)) ! nat ((int (Suc t) mod ?b - ?d) mod ?b) ! S_i c"
    using assms(1)
    by (simp only: looked_up_written state_at_Suc[symmetric] pointer_state_at state_at_static)
  also have "(int (Suc t) mod ?b - ?d) mod ?b = (int (Suc t) - int (nat ?d)) mod ?b"
    using assms(2) by (simp add: mod_diff_left_eq)
  also have "G_v_buffer (state_at s (Suc t)) ! nat ((int (Suc t) - int (nat ?d)) mod ?b) =
      (if nat ?d < Suc t then G_v (state_at s (Suc t - 1 - nat ?d))
       else replicate (length (G_v s)) 0)"
    using assms(1) e by (rule history)
  finally have "looked_up (written (state_at s t)) c =
      (if nat ?d < Suc t then G_v (state_at s (Suc t - 1 - nat ?d))
       else replicate (length (G_v s)) 0) ! S_i c" .
  moreover have "nat ?d < Suc t \<longleftrightarrow> ?d \<le> int t" using assms(2) by auto
  ultimately show ?thesis
    using assms(1,4) by (simp add: delayed_v_def G_v_at_wf fresh_wf)
qed

lemma synapses_length: "length (S_synapses (state_at s t)) = length (S_synapses s)"
  using state_at_static(4)[of s t] by (rule map_eq_imp_length_eq)

lemma synapse_static:
  assumes "k < length (S_synapses s)"
  shows "S_i (S_synapses (state_at s t) ! k) = S_i (S_synapses s ! k)"
    and "S_j (S_synapses (state_at s t) ! k) = S_j (S_synapses s ! k)"
    and "S_w (S_synapses (state_at s t) ! k) = S_w (S_synapses s ! k)"
    and "S_delay_step (S_synapses (state_at s t) ! k) = S_delay_step (S_synapses s ! k)"
proof -
  have m: "map connection (S_synapses (state_at s t)) = map connection (S_synapses s)"
    by (rule state_at_static)
  have len: "length (S_synapses (state_at s t)) = length (S_synapses s)"
    by (rule synapses_length)
  have "map connection (S_synapses (state_at s t)) ! k = map connection (S_synapses s) ! k"
    by (simp only: m)
  then have "connection (S_synapses (state_at s t) ! k) = connection (S_synapses s ! k)"
    using assms len by simp
  then show "S_i (S_synapses (state_at s t) ! k) = S_i (S_synapses s ! k)"
    and "S_j (S_synapses (state_at s t) ! k) = S_j (S_synapses s ! k)"
    and "S_w (S_synapses (state_at s t) ! k) = S_w (S_synapses s ! k)"
    and "S_delay_step (S_synapses (state_at s t) ! k) = S_delay_step (S_synapses s ! k)"
    by (simp_all add: connection_def)
qed

lemma looked_up_cong:
  "S_i c = S_i c' \<Longrightarrow> S_delay_step c = S_delay_step c' \<Longrightarrow> looked_up s c = looked_up s c'"
  by (simp add: looked_up_def)

lemma v_delayed_nth:
  assumes "fresh s" "delays_ok s" "k < length (S_synapses s)"
  shows "S_v_delayed (S_synapses (state_at s (Suc t)) ! k) = delayed_v s t (S_synapses s ! k)"
proof -
  let ?c = "S_synapses s ! k"
  let ?c' = "S_synapses (state_at s t) ! k"
  have k': "k < length (S_synapses (state_at s t))" using assms(3) by (simp add: synapses_length)
  have c: "?c \<in> set (S_synapses s)" using assms(3) by simp
  have d: "1 \<le> S_delay_step ?c" "S_delay_step ?c \<le> buffer_size s - 1"
    using assms(2) c by (simp_all add: delays_ok_def list_all_iff)
  have i: "S_i ?c < length (G_v s)"
    using assms(1) c by (simp add: fresh_def wf_def list_all_iff)
  have "S_v_delayed (S_synapses (state_at s (Suc t)) ! k) = looked_up (written (state_at s t)) ?c'"
    using k' by (simp add: state_at_Suc after_tick_fields)
  also have "\<dots> = looked_up (written (state_at s t)) ?c"
    using assms(3) by (intro looked_up_cong) (simp_all add: synapse_static)
  also have "\<dots> = delayed_v s t ?c"
    using assms(1) d i by (rule looked_up_history)
  finally show ?thesis .
qed

lemma v_delayed_at_eq:
  assumes "fresh s" "delays_ok s"
  shows "v_delayed_at s t = map (delayed_v s t) (S_synapses s)"
  using assms
  by (intro nth_equalityI) (simp_all add: observers_wf fresh_wf synapses_length v_delayed_nth)

lemma filter_map_pairs:
  "map g (filter (\<lambda>c. h c = j) xs) = map snd (filter (\<lambda>p. fst p = j) (map (\<lambda>c. (h c, g c)) xs))"
  by (induction xs) simp_all

lemma summed_state_at:
  assumes "fresh s" "delays_ok s"
  shows "summed_I_post (S_synapses (state_at s (Suc t))) j =
     sum_list (map (\<lambda>c. S_w c * delayed_v s t c) (filter (\<lambda>c. S_j c = j) (S_synapses s)))"
proof -
  let ?cs' = "S_synapses (state_at s (Suc t))"
  have "map (\<lambda>c. (S_j c, S_v_delayed c * S_w c)) ?cs' =
      map (\<lambda>c. (S_j c, S_w c * delayed_v s t c)) (S_synapses s)"
    using assms
    by (intro nth_equalityI) (simp_all add: synapses_length synapse_static v_delayed_nth)
  then show ?thesis
    unfolding summed_I_post_def
    by (simp only: filter_map_pairs[where h = S_j])
qed

lemma H_I_at_eq:
  assumes "fresh s" "delays_ok s"
  shows "H_I_at s t =
     map (\<lambda>j. sum_list (map (\<lambda>c. S_w c * delayed_v s t c) (filter (\<lambda>c. S_j c = j) (S_synapses s))))
       [0..<length (H_I s)]"
proof -
  have "H_I_at s t = map (summed_I_post (S_synapses (state_at s (Suc t)))) [0..<length (H_I s)]"
    using assms(1)
    by (simp add: observers_wf fresh_wf)
      (simp add: state_at_Suc after_tick_fields state_at_static)
  then show ?thesis using assms by (simp add: summed_state_at)
qed

subsection \<open>Construction and runs from a fresh network\<close>

lemma fresh_one_synapse: "0 \<le> d \<Longrightarrow> fresh (one_synapse w d)"
  by (simp add: fresh_def wf_def one_synapse_def list_all_iff)

lemma delays_ok_one_synapse: "1 \<le> d \<Longrightarrow> delays_ok (one_synapse w d)"
  by (simp add: delays_ok_def one_synapse_def)

lemma G_v_at_fresh: "fresh s \<Longrightarrow> G_v_at s t = map (reset_after_update ^^ t) (G_v s)"
  by (simp add: G_v_at_wf fresh_wf G_v_state_at)

lemma G_v_at_one_synapse:
  "0 \<le> d \<Longrightarrow> G_v_at (one_synapse w d) t = [(reset_after_update ^^ t) 0]"
  by (simp add: G_v_at_fresh fresh_one_synapse) (simp add: one_synapse_def)

lemma length_connect: "length (connect n) = n * n"
  by (simp add: connect_def)

lemma connect_source: "x \<in> set (connect n) \<Longrightarrow> fst x < n"
  by (auto simp: connect_def)

lemma drawn_delays_length:
  "1 \<le> nb \<Longrightarrow> drawn_delays nb delays \<Longrightarrow> length delays = length (connect (nat nb))"
  by (simp add: drawn_delays_def length_connect nat_mult_distrib)

lemma setup_succeeds:
  assumes "1 \<le> nb" "delays \<noteq> []" "- 1 \<le> Max (set delays)"
    "length delays = length (connect (nat nb))"
  shows "Simulation_setup nb delays =
     Inr \<lparr>buffer_size = 1 + Max (set delays),
          G_v = replicate (nat nb) 0,
          G_buffer_pointer = 0,
          G_v_buffer = replicate (nat (1 + Max (set delays))) (replicate (nat nb) 0),
          G_spikes = [],
          H_I = replicate (nat nb) 0,
          S_synapses = map new_synapse (zip (connect (nat nb)) delays)\<rparr>"
  using assms by (simp add: Simulation_setup_def)

lemma setup_fields:
  assumes "Simulation_setup nb delays = Inr s"
  shows "buffer_size s = 1 + Max (set delays)"
    and "G_v s = replicate (nat nb) 0"
    and "G_buffer_pointer s = 0"
    and "G_v_buffer s = replicate (nat (1 + Max (set delays))) (replicate (nat nb) 0)"
    and "H_I s = replicate (nat nb) 0"
    and "S_synapses s = map new_synapse (zip (connect (nat nb)) delays)"
    and "1 \<le> nb" and "delays \<noteq> []" and "length delays = length (connect (nat nb))"
  using assms by (auto simp: Simulation_setup_def split: if_splits)

lemma setup_delay_steps:
  assumes "Simulation_setup nb delays = Inr s" "c \<in> set (S_synapses s)"
  shows "S_delay_step c \<in> set delays" and "S_i c < nat nb"
proof -
  from assms obtain x where x: "x \<in> set (zip (connect (nat nb)) delays)" "c = new_synapse x"
    by (auto simp: setup_fields(6))
  then have "(fst x, snd x) \<in> set (zip (connect (nat nb)) delays)" by simp
  then have "snd x \<in> set delays" "fst x \<in> set (connect (nat nb))"
    by (rule set_zip_rightD, rule set_zip_leftD)
  then show "S_delay_step c \<in> set delays" "S_i c < nat nb"
    using x(2) by (simp_all add: new_synapse_def connect_source)
qed

lemma setup_delay_bound:
  assumes "Simulation_setup nb delays = Inr s" "c \<in> set (S_synapses s)"
  shows "S_delay_step c \<le> buffer_size s - 1"
proof -
  have "S_delay_step c \<in> set delays" using assms by (rule setup_delay_steps)
  then have "S_delay_step c \<le> Max (set delays)" by simp
  then show ?thesis using assms(1) by (simp add: setup_fields)
qed

lemma setup_fresh:
  assumes "Simulation_setup nb delays = Inr s" "list_all (\<lambda>d. 1 \<le> d) delays"
  shows "fresh s" and "delays_ok s"
proof -
  have ne: "delays \<noteq> []" using assms(1) by (rule setup_fields)
  then have "hd delays \<in> set delays" by simp
  then have "1 \<le> hd delays" "hd delays \<le> Max (set delays)"
    using assms(2) by (simp_all add: list_all_iff)
  then have "1 \<le> Max (set delays)" by linarith
  then have bs: "1 \<le> buffer_size s" using assms(1) by (simp add: setup_fields)
  have "list_all (\<lambda>c. S_i c < length (G_v s)) (S_synapses s)"
    using assms(1) by (auto simp: list_all_iff setup_fields(2) dest: setup_delay_steps(2))
  then show "fresh s"
    using bs assms(1)
    by (simp add: fresh_def wf_def setup_fields(1,2,3,4) list_all_iff)
  show "delays_ok s"
    unfolding delays_ok_def list_all_iff
  proof
    fix c assume c: "c \<in> set (S_synapses s)"
    have "S_delay_step c \<in> set delays" using assms(1) c by (rule setup_delay_steps)
    then have "1 \<le> S_delay_step c" using assms(2) by (simp add: list_all_iff)
    then show "1 \<le> S_delay_step c \<and> S_delay_step c \<le> buffer_size s - 1"
      using setup_delay_bound[OF assms(1) c] by simp
  qed
qed

lemma drawn_delays_positive: "drawn_delays nb delays \<Longrightarrow> list_all (\<lambda>d. 1 \<le> d) delays"
  by (simp add: drawn_delays_def list_all_iff)

lemma drawn_delays_nonempty: "1 \<le> nb \<Longrightarrow> drawn_delays nb delays \<Longrightarrow> delays \<noteq> []"
proof -
  assume a: "1 \<le> nb" "drawn_delays nb delays"
  then have "length delays = nat nb * nat nb" by (simp add: drawn_delays_def nat_mult_distrib)
  moreover have "0 < nat nb" using a(1) by simp
  ultimately show ?thesis by auto
qed

lemma setup_drawn:
  assumes "1 \<le> nb" "drawn_delays nb delays"
  shows "\<exists>s. Simulation_setup nb delays = Inr s"
proof -
  have ne: "delays \<noteq> []" using assms by (rule drawn_delays_nonempty)
  then have "hd delays \<in> set delays" by simp
  then have "1 \<le> hd delays" "hd delays \<le> Max (set delays)"
    using drawn_delays_positive[OF assms(2)] by (simp_all add: list_all_iff)
  then have "- 1 \<le> Max (set delays)" by linarith
  then show ?thesis
    using assms ne by (simp add: setup_succeeds drawn_delays_length)
qed

lemma reset_after_update_vals:
  "reset_after_update 0 = 2/5" "reset_after_update (2/5) = 4/5" "reset_after_update (4/5) = 6/5"
  "reset_after_update (6/5) = 8/5" "reset_after_update (8/5) = 2" "reset_after_update 2 = 12/5"
  "reset_after_update (12/5) = 14/5" "reset_after_update (14/5) = 16/5"
  "reset_after_update (16/5) = 18/5" "reset_after_update (18/5) = 4" "reset_after_update 4 = 0"
  by (simp_all add: reset_after_update_def dt_ms_def)

lemma G_v_at_10: "0 \<le> d \<Longrightarrow> G_v_at (one_synapse w d) 10 = [4]"
  by (simp add: G_v_at_one_synapse eval_nat_numeral reset_after_update_vals)

lemma G_v_at_11: "0 \<le> d \<Longrightarrow> G_v_at (one_synapse w d) 11 = [0]"
  by (simp add: G_v_at_one_synapse eval_nat_numeral reset_after_update_vals)


lemma setup_one_neuron: "- 1 \<le> d \<Longrightarrow> Simulation_setup 1 [d] = Inr (one_synapse 0 d)"
  by (simp add: Simulation_setup_def one_synapse_def connect_def new_synapse_def)

lemma pre_reset_objects:
  "takeWhile (\<lambda>ob. ob \<noteq> resetter) schedule =
     [buffer_updater, get_new_v_delayed, summed_variable_I_post, stateupdater, thresholder]"
  by (simp add: schedule_eq)

lemma G_v_pre_reset_at_wf:
  assumes "wf s"
  shows "G_v_pre_reset_at s t = map (\<lambda>x. x + 0.4 * dt_ms) (G_v_at s t)"
proof -
  let ?s0 = "state_at s t"
  have w0: "wf ?s0" using assms by (rule wf_state_at)
  have 1: "run_buffer_updater ?s0 = Inr (written ?s0)"
    using w0 by (simp add: run_buffer_updater_wf written_def)
  have 2: "run_get_new_v_delayed (written ?s0) = Inr (delayed (written ?s0))"
    using wf_written[OF w0] by (simp add: run_get_new_v_delayed_wf delayed_def)
  have "run_objects (takeWhile (\<lambda>ob. ob \<noteq> resetter) schedule) ?s0 =
      Inr (run_thresholder (run_stateupdater (run_summed_variable (delayed (written ?s0)))))"
    by (simp add: pre_reset_objects 1 2)
  then show ?thesis
    using assms
    by (simp add: G_v_pre_reset_at_def run_ticks_wf G_v_at_wf run_thresholder_def
        run_stateupdater_def run_summed_variable_def delayed_def written_def)
qed

section \<open>The claims\<close>

subsection \<open>The order within a time step and the buffer write\<close>

lemma position_values:
  "position buffer_updater = 0" "position get_new_v_delayed = 1"
  "position summed_variable_I_post = 2" "position stateupdater = 3"
  "position thresholder = 4" "position resetter = 5"
  by (simp_all add: position_def schedule_eq)

lemma tick_unfolded:
  "tick s =
     (case run_buffer_updater s of
        Inl e \<Rightarrow> Inl e
      | Inr s1 \<Rightarrow>
          (case run_get_new_v_delayed s1 of
             Inl e \<Rightarrow> Inl e
           | Inr s2 \<Rightarrow>
               Inr (run_resetter (run_thresholder (run_stateupdater (run_summed_variable s2))))))"
  by (simp add: tick_def schedule_eq split: sum.splits)

text \<open>
  Claim C2, as the code has it. A time step runs its objects in this order: the buffer write,
  the delayed read, the summation into \<open>I\<close>, the state update of \<open>v\<close>, the threshold test,
  the reset. So the buffer write completes before the delayed read of the step and the
  threshold and the reset run last, but the state update of \<open>v\<close> runs after the write and
  the aggregation of its step, not before them.
\<close>

theorem tick_phase_order:
  "schedule =
     [buffer_updater, get_new_v_delayed, summed_variable_I_post, stateupdater, thresholder,
      resetter] \<and>
   runs_before buffer_updater get_new_v_delayed \<and>
   runs_before get_new_v_delayed summed_variable_I_post \<and>
   runs_before summed_variable_I_post stateupdater \<and>
   runs_before stateupdater thresholder \<and>
   runs_before thresholder resetter \<and>
   tick s =
     (case run_buffer_updater s of
        Inl e \<Rightarrow> Inl e
      | Inr s1 \<Rightarrow>
          (case run_get_new_v_delayed s1 of
             Inl e \<Rightarrow> Inl e
           | Inr s2 \<Rightarrow>
               Inr (run_resetter (run_thresholder (run_stateupdater (run_summed_variable s2))))))"
  using tick_unfolded[of s] by (simp add: schedule_eq[symmetric] runs_before_def position_values)

text \<open>
  Claim C2 as stated fails: the order state update, buffer write, delayed read and
  aggregation, threshold and reset is not the order of the schedule, because the state
  update does not run before the buffer write.
\<close>

theorem state_update_not_before_buffer_write:
  "\<not> (runs_before stateupdater buffer_updater \<and>
      runs_before buffer_updater get_new_v_delayed \<and>
      runs_before get_new_v_delayed summed_variable_I_post \<and>
      runs_before summed_variable_I_post thresholder \<and>
      runs_before thresholder resetter)"
  by (simp add: runs_before_def position_values)

text \<open>
  Claim C3. On a well-shaped network the buffer write first advances the pointer to
  \<open>(p + 1) mod buffer_size\<close> and then overwrites exactly the row at the new pointer with the
  current \<open>v\<close> of all neurons of \<open>G\<close>, leaving every other row and \<open>v\<close> itself alone. It is
  scheduled once in a time step, before the delayed read; over a whole time step the
  pointer advances by one and the buffer changes by this one row.
\<close>

theorem buffer_write_once_per_tick:
  assumes "wf s"
  shows "(\<exists>s'. run_buffer_updater s = Inr s' \<and>
            G_buffer_pointer s' = (G_buffer_pointer s + 1) mod buffer_size s \<and>
            G_v_buffer s' = (G_v_buffer s)[nat (G_buffer_pointer s') := G_v s] \<and>
            nat (G_buffer_pointer s') < length (G_v_buffer s) \<and>
            G_v_buffer s' ! nat (G_buffer_pointer s') = G_v s \<and>
            G_v s' = G_v s) \<and>
         count_list schedule buffer_updater = 1 \<and>
         runs_before buffer_updater get_new_v_delayed \<and>
         (\<exists>s0 s1. run_ticks t s = Inr s0 \<and> run_ticks (Suc t) s = Inr s1 \<and>
            G_buffer_pointer s1 = (G_buffer_pointer s0 + 1) mod buffer_size s \<and>
            G_v_buffer s1 = (G_v_buffer s0)[nat (G_buffer_pointer s1) := G_v s0] \<and>
            row_written_at s t = G_v_at s t)"
proof -
  let ?p = "(G_buffer_pointer s + 1) mod buffer_size s"
  have b: "1 \<le> buffer_size s" "length (G_v_buffer s) = nat (buffer_size s)"
    using assms by (simp_all add: wf_def)
  then have p: "nat ?p < length (G_v_buffer s)" by simp
  have 1: "\<exists>s'. run_buffer_updater s = Inr s' \<and>
            G_buffer_pointer s' = (G_buffer_pointer s + 1) mod buffer_size s \<and>
            G_v_buffer s' = (G_v_buffer s)[nat (G_buffer_pointer s') := G_v s] \<and>
            nat (G_buffer_pointer s') < length (G_v_buffer s) \<and>
            G_v_buffer s' ! nat (G_buffer_pointer s') = G_v s \<and>
            G_v s' = G_v s"
    using p by (simp add: run_buffer_updater_wf[OF assms])
  have 2: "count_list schedule buffer_updater = 1" by (simp add: schedule_eq)
  have 3: "runs_before buffer_updater get_new_v_delayed"
    by (simp add: runs_before_def position_values)
  let ?s0 = "state_at s t"
  have wf0: "wf ?s0" using assms by (rule wf_state_at)
  then have "1 \<le> buffer_size s" "length (G_v_buffer ?s0) = nat (buffer_size s)"
    by (simp_all add: wf_def state_at_static)
  then have p0: "nat ((G_buffer_pointer ?s0 + 1) mod buffer_size s) < length (G_v_buffer ?s0)"
    by simp
  have row: "row_written_at s t = G_v_at s t"
    using assms p0
    by (simp add: observers_wf G_v_at_wf state_at_Suc after_tick_fields state_at_static)
  have 4: "\<exists>s0 s1. run_ticks t s = Inr s0 \<and> run_ticks (Suc t) s = Inr s1 \<and>
            G_buffer_pointer s1 = (G_buffer_pointer s0 + 1) mod buffer_size s \<and>
            G_v_buffer s1 = (G_v_buffer s0)[nat (G_buffer_pointer s1) := G_v s0] \<and>
            row_written_at s t = G_v_at s t"
    using row run_ticks_wf[OF assms, of t] run_ticks_wf[OF assms, of "Suc t"]
    by (simp add: state_at_Suc after_tick_fields state_at_static del: run_ticks.simps)
  show ?thesis using 1 2 3 4 by blast
qed

text \<open>The buffer write on the network of one synapse with delay \<open>2\<close>.\<close>

theorem buffer_write_once_per_tick_witness:
  "wf (one_synapse 1 2) \<and>
   (\<exists>s'. run_buffer_updater (one_synapse 1 2) = Inr s' \<and> G_buffer_pointer s' = 1 \<and>
      G_v_buffer s' ! 1 = [0]) \<and>
   row_written_at (one_synapse 1 2) 3 = G_v_at (one_synapse 1 2) 3"
proof -
  have w: "wf (one_synapse 1 2)" by (simp add: fresh_wf fresh_one_synapse)
  have f: "buffer_size (one_synapse 1 2) = 3" "G_buffer_pointer (one_synapse 1 2) = 0"
    "G_v (one_synapse 1 2) = [0]"
    by (simp_all add: one_synapse_def)
  show ?thesis
    using w buffer_write_once_per_tick[OF w, of 3] by (auto simp: f)
qed




subsection \<open>The delay law\<close>





lemma lookup_synapse_wf:
  assumes "wf s" "S_i c < length (G_v s)"
  shows "lookup_synapse s c =
     Inr (c\<lparr>S_v_delayed :=
       G_v_buffer s ! nat ((G_buffer_pointer s - S_delay_step c) mod buffer_size s) ! S_i c\<rparr>)"
proof -
  have "get_v_delayed (G_v_buffer s) (G_buffer_pointer s) (buffer_size s) (S_i c)
      (S_delay_step c) =
      Inr (G_v_buffer s ! nat ((G_buffer_pointer s - S_delay_step c) mod buffer_size s) ! S_i c)"
    using assms by (intro get_v_delayed_wf) (simp_all add: wf_def)
  then show ?thesis by (simp add: lookup_synapse_def)
qed

lemma buffer_pointer_at_wf:
  "wf s \<Longrightarrow> buffer_pointer_at s t = G_buffer_pointer (state_at s (Suc t))"
  by (simp add: buffer_pointer_at_def run_ticks_wf del: run_ticks.simps)

lemma v_delayed_at_buffer:
  assumes "wf s" "k < length (S_synapses s)"
  shows "v_delayed_at s t ! k =
     v_buffer_at s t !
       nat ((buffer_pointer_at s t - S_delay_step (S_synapses s ! k)) mod buffer_size s) !
       S_i (S_synapses s ! k)"
proof -
  have k': "k < length (S_synapses (state_at s t))" using assms(2) by (simp add: synapses_length)
  have "v_delayed_at s t ! k = looked_up (written (state_at s t)) (S_synapses (state_at s t) ! k)"
    using assms(1) k' by (simp add: observers_wf state_at_Suc after_tick_fields)
  also have "\<dots> = looked_up (written (state_at s t)) (S_synapses s ! k)"
    using assms(2) by (intro looked_up_cong) (simp_all add: synapse_static)
  finally show ?thesis
    using assms(1)
    by (simp add: looked_up_written observers_wf buffer_pointer_at_wf state_at_Suc state_at_static)
qed

text \<open>
  Claim C4. On a well-shaped network the lookup of a synapse with source \<open>i\<close> and delay \<open>d\<close>
  returns the entry at row \<open>(p - d) mod buffer_size\<close>, column \<open>i\<close> of the buffer; within a
  time step \<open>p\<close> and the buffer are those the write of that step has left. From a fresh
  network, with \<open>1 \<le> d \<le> buffer_size - 1\<close> and \<open>d \<le> t\<close>, this is the \<open>v\<close> of source \<open>i\<close> written
  \<open>d\<close> steps before step \<open>t\<close>; with \<open>d = 1\<close> it is the value of the previous step.
\<close>

theorem delayed_lookup:
  assumes "wf s" and "k < length (S_synapses s)"
  shows "lookup_synapse s (S_synapses s ! k) =
       Inr ((S_synapses s ! k)\<lparr>S_v_delayed :=
         G_v_buffer s !
           nat ((G_buffer_pointer s - S_delay_step (S_synapses s ! k)) mod buffer_size s) !
           S_i (S_synapses s ! k)\<rparr>) \<and>
     v_delayed_at s t ! k =
       v_buffer_at s t !
         nat ((buffer_pointer_at s t - S_delay_step (S_synapses s ! k)) mod buffer_size s) !
         S_i (S_synapses s ! k) \<and>
     (fresh s \<and> 1 \<le> S_delay_step (S_synapses s ! k) \<and>
      S_delay_step (S_synapses s ! k) \<le> buffer_size s - 1 \<and>
      S_delay_step (S_synapses s ! k) \<le> int t \<longrightarrow>
        v_delayed_at s t ! k =
          G_v_at s (t - nat (S_delay_step (S_synapses s ! k))) ! S_i (S_synapses s ! k)) \<and>
     (fresh s \<and> S_delay_step (S_synapses s ! k) = 1 \<and> 2 \<le> buffer_size s \<and> 1 \<le> t \<longrightarrow>
        v_delayed_at s t ! k = G_v_at s (t - 1) ! S_i (S_synapses s ! k))"
proof -
  let ?c = "S_synapses s ! k"
  have c: "?c \<in> set (S_synapses s)" using assms(2) by simp
  then have i: "S_i ?c < length (G_v s)" using assms(1) by (simp add: wf_def list_all_iff)
  have 1: "lookup_synapse s ?c =
       Inr (?c\<lparr>S_v_delayed :=
         G_v_buffer s ! nat ((G_buffer_pointer s - S_delay_step ?c) mod buffer_size s) ! S_i ?c\<rparr>)"
    using assms(1) i by (rule lookup_synapse_wf)
  have 2: "v_delayed_at s t ! k =
       v_buffer_at s t ! nat ((buffer_pointer_at s t - S_delay_step ?c) mod buffer_size s) !
         S_i ?c"
    using assms by (rule v_delayed_at_buffer)
  have 3: "v_delayed_at s t ! k = G_v_at s (t - nat (S_delay_step ?c)) ! S_i ?c"
    if "fresh s" "1 \<le> S_delay_step ?c" "S_delay_step ?c \<le> buffer_size s - 1"
      "S_delay_step ?c \<le> int t"
  proof -
    have k': "k < length (S_synapses (state_at s t))"
      using assms(2) by (simp add: synapses_length)
    have "v_delayed_at s t ! k =
        looked_up (written (state_at s t)) (S_synapses (state_at s t) ! k)"
      using assms(1) k' by (simp add: observers_wf state_at_Suc after_tick_fields)
    also have "\<dots> = looked_up (written (state_at s t)) ?c"
      using assms(2) by (intro looked_up_cong) (simp_all add: synapse_static)
    also have "\<dots> = delayed_v s t ?c"
      using that(1,2,3) i by (rule looked_up_history)
    finally show ?thesis using that(4) by (simp add: delayed_v_def)
  qed
  have 4: "v_delayed_at s t ! k = G_v_at s (t - 1) ! S_i ?c"
    if "fresh s" "S_delay_step ?c = 1" "2 \<le> buffer_size s" "1 \<le> t"
    using 3 that by simp
  show ?thesis using 1 2 3 4 by blast
qed

text \<open>One synapse of delay \<open>1\<close>: step \<open>3\<close> looks up the \<open>v\<close> of step \<open>2\<close>, not that of step
  \<open>3\<close>.\<close>

theorem delayed_lookup_witness:
  "wf (one_synapse 1 1) \<and> fresh (one_synapse 1 1) \<and>
   v_delayed_at (one_synapse 1 1) 3 = [4/5] \<and> G_v_at (one_synapse 1 1) 2 = [4/5] \<and>
   G_v_at (one_synapse 1 1) 3 = [6/5]"
proof -
  have f: "fresh (one_synapse 1 1)" by (simp add: fresh_one_synapse)
  then have w: "wf (one_synapse 1 1)" by (rule fresh_wf)
  have k: "0 < length (S_synapses (one_synapse 1 1))" by (simp add: one_synapse_def)
  have v: "G_v_at (one_synapse 1 1) 2 = [4/5]" "G_v_at (one_synapse 1 1) 3 = [6/5]"
    by (simp_all add: G_v_at_one_synapse eval_nat_numeral reset_after_update_vals)
  have len: "length (v_delayed_at (one_synapse 1 1) 3) = 1"
    using w by (simp add: observers_wf synapses_length) (simp add: one_synapse_def)
  have "v_delayed_at (one_synapse 1 1) 3 ! 0 = 4/5"
    using delayed_lookup[OF w k, of 3] f v by (simp add: one_synapse_def)
  then have "v_delayed_at (one_synapse 1 1) 3 = [4/5]"
    using len by (cases "v_delayed_at (one_synapse 1 1) 3") simp_all
  then show ?thesis using f w v by simp
qed

subsection \<open>The buffer size and reads before the start\<close>



lemma row_written_at_wf:
  assumes "wf s"
  shows "row_written_at s t = G_v_at s t"
proof -
  let ?s0 = "state_at s t"
  have "wf ?s0" using assms by (rule wf_state_at)
  then have "1 \<le> buffer_size s" "length (G_v_buffer ?s0) = nat (buffer_size s)"
    by (simp_all add: wf_def state_at_static)
  then have "nat ((G_buffer_pointer ?s0 + 1) mod buffer_size s) < length (G_v_buffer ?s0)"
    by simp
  then show ?thesis
    using assms
    by (simp add: observers_wf G_v_at_wf state_at_Suc after_tick_fields state_at_static)
qed




text \<open>
  Claim C7. From a fresh network whose delays lie between \<open>1\<close> and \<open>buffer_size - 1\<close>, a time
  step \<open>t\<close> raises nothing, a synapse whose delay is above \<open>t\<close> looks up the initial zero of
  the buffer, and a target all of whose synapses have a delay above \<open>t\<close> holds \<open>I = 0\<close>. With
  one synapse of delay \<open>2\<close> this gives \<open>I(t) = 0\<close> for \<open>t < 2\<close>.
\<close>

theorem pre_start_read:
  assumes "fresh s" and "delays_ok s"
  shows "(\<exists>s'. run_ticks (Suc t) s = Inr s') \<and>
     (\<forall>k. k < length (S_synapses s) \<and> int t < S_delay_step (S_synapses s ! k) \<longrightarrow>
        v_delayed_at s t ! k = 0) \<and>
     (\<forall>j. j < length (H_I s) \<and>
          list_all (\<lambda>c. S_j c = j \<longrightarrow> int t < S_delay_step c) (S_synapses s) \<longrightarrow>
        H_I_at s t ! j = 0)"
proof -
  have 1: "\<exists>s'. run_ticks (Suc t) s = Inr s'"
    using assms(1) by (simp add: run_ticks_wf fresh_wf del: run_ticks.simps)
  have 2: "v_delayed_at s t ! k = 0"
    if "k < length (S_synapses s)" "int t < S_delay_step (S_synapses s ! k)" for k
    using that assms by (simp add: v_delayed_at_eq delayed_v_def)
  have 3: "H_I_at s t ! j = 0"
    if "j < length (H_I s)"
      "list_all (\<lambda>c. S_j c = j \<longrightarrow> int t < S_delay_step c) (S_synapses s)" for j
  proof -
    have "S_w c * delayed_v s t c = 0" if "c \<in> set (filter (\<lambda>c. S_j c = j) (S_synapses s))" for c
      using that \<open>list_all _ _\<close> by (auto simp: list_all_iff delayed_v_def)
    then have "map (\<lambda>c. S_w c * delayed_v s t c) (filter (\<lambda>c. S_j c = j) (S_synapses s)) =
        map (\<lambda>c. 0) (filter (\<lambda>c. S_j c = j) (S_synapses s))"
      by (intro map_cong) simp_all
    then have "sum_list (map (\<lambda>c. S_w c * delayed_v s t c)
        (filter (\<lambda>c. S_j c = j) (S_synapses s))) =
        sum_list (map (\<lambda>c. 0) (filter (\<lambda>c. S_j c = j) (S_synapses s)))"
      by (rule arg_cong)
    then have "sum_list (map (\<lambda>c. S_w c * delayed_v s t c)
        (filter (\<lambda>c. S_j c = j) (S_synapses s))) = 0"
      by (simp only: sum_list_0)
    then show ?thesis using that(1) assms by (simp add: H_I_at_eq)
  qed
  show ?thesis using 1 2 3 by blast
qed

text \<open>One synapse of weight \<open>1\<close> and delay \<open>2\<close>: \<open>I\<close> is zero at the steps \<open>0\<close> and \<open>1\<close>.\<close>

theorem pre_start_read_witness:
  "fresh (one_synapse 1 2) \<and> delays_ok (one_synapse 1 2) \<and>
   H_I_at (one_synapse 1 2) 0 ! 0 = 0 \<and> H_I_at (one_synapse 1 2) 1 ! 0 = 0 \<and>
   v_delayed_at (one_synapse 1 2) 1 ! 0 = 0"
proof -
  have f: "fresh (one_synapse 1 2)" by (simp add: fresh_one_synapse)
  have d: "delays_ok (one_synapse 1 2)" by (simp add: delays_ok_one_synapse)
  show ?thesis
    using f d pre_start_read[OF f d, of 0] pre_start_read[OF f d, of 1]
    by (simp add: one_synapse_def)
qed

subsection \<open>The reset and the history\<close>

lemma spikes_at_wf:
  assumes "wf s"
  shows "spikes_at s t =
     filter (\<lambda>k. G_v_pre_reset_at s t ! k > 4.0) [0..<length (G_v s)]"
  using assms
  by (simp add: observers_wf G_v_pre_reset_at_wf G_v_at_wf state_at_Suc after_tick_fields
      state_at_static)

lemma reset_after_update_le: "reset_after_update x \<le> 4"
  by (simp add: reset_after_update_def)

text \<open>
  Claim C6, as the code has it. The row written at step \<open>t\<close> holds \<open>v\<close> as step \<open>t\<close> finds it,
  before the state update and the threshold test of that step; the value that crosses the
  threshold (\<open>v\<close> after the state update of step \<open>t\<close>) is not what the row holds. For a
  neuron that spikes at step \<open>t\<close> the row written at step \<open>t + 1\<close> holds the reset value \<open>0\<close>,
  and no row written after the first step holds a value above the threshold. The resetter
  leaves the buffer alone.
\<close>

theorem reset_visibility:
  assumes "wf s"
  shows "row_written_at s t = G_v_at s t \<and>
     G_v_pre_reset_at s t = map (\<lambda>x. x + 0.4 * dt_ms) (G_v_at s t) \<and>
     spikes_at s t = filter (\<lambda>k. G_v_pre_reset_at s t ! k > 4.0) [0..<length (G_v s)] \<and>
     list_all (\<lambda>k. row_written_at s (Suc t) ! k = 0) (spikes_at s t) \<and>
     list_all (\<lambda>x. x \<le> 4.0) (row_written_at s (Suc t)) \<and>
     G_v_buffer (run_resetter s) = G_v_buffer s \<and>
     v_buffer_at s t ! nat (buffer_pointer_at s t) = G_v_at s t"
proof -
  have 1: "row_written_at s t = G_v_at s t" using assms by (rule row_written_at_wf)
  have 2: "G_v_pre_reset_at s t = map (\<lambda>x. x + 0.4 * dt_ms) (G_v_at s t)"
    using assms by (rule G_v_pre_reset_at_wf)
  have 3: "spikes_at s t = filter (\<lambda>k. G_v_pre_reset_at s t ! k > 4.0) [0..<length (G_v s)]"
    using assms by (rule spikes_at_wf)
  have next_row: "row_written_at s (Suc t) = map reset_after_update (G_v_at s t)"
    using assms by (simp add: row_written_at_wf G_v_at_wf state_at_Suc G_v_after_tick)
  have len: "length (G_v_at s t) = length (G_v s)"
    using assms by (simp add: G_v_at_wf state_at_static)
  have 4: "list_all (\<lambda>k. row_written_at s (Suc t) ! k = 0) (spikes_at s t)"
    unfolding list_all_iff
  proof
    fix k assume "k \<in> set (spikes_at s t)"
    then have k: "k < length (G_v s)" "map (\<lambda>x. x + 0.4 * dt_ms) (G_v_at s t) ! k > 4.0"
      by (simp_all add: 3 2)
    then have "k < length (G_v s)" "G_v_at s t ! k + 0.4 * dt_ms > 4.0"
      using len by auto
    then show "row_written_at s (Suc t) ! k = 0"
      using len by (simp add: next_row reset_after_update_def)
  qed
  have 5: "list_all (\<lambda>x. x \<le> 4.0) (row_written_at s (Suc t))"
    by (simp add: next_row list_all_iff reset_after_update_le)
  have 6: "G_v_buffer (run_resetter s) = G_v_buffer s" by (simp add: run_resetter_def)
  have 7: "v_buffer_at s t ! nat (buffer_pointer_at s t) = G_v_at s t"
    using 1 assms
    by (simp add: row_written_at_def v_buffer_at_def buffer_pointer_at_def run_ticks_wf
        del: run_ticks.simps)
  show ?thesis using 1 2 3 4 5 6 7 by blast
qed

text \<open>One neuron: it spikes at step \<open>10\<close>; the row of step \<open>10\<close> holds \<open>4\<close> and the row of
  step \<open>11\<close> holds \<open>0\<close>.\<close>

theorem reset_visibility_witness:
  "wf (one_synapse 0 1) \<and> spikes_at (one_synapse 0 1) 10 = [0] \<and>
   row_written_at (one_synapse 0 1) 10 = [4] \<and> row_written_at (one_synapse 0 1) 11 = [0]"
proof -
  have w: "wf (one_synapse 0 1)" by (simp add: fresh_wf fresh_one_synapse)
  have g: "G_v (one_synapse 0 1) = [0]" by (simp add: one_synapse_def)
  show ?thesis
    using w reset_visibility[OF w, of 10] reset_visibility[OF w, of 11]
    by (simp add: G_v_at_10 G_v_at_11 g dt_ms_def)
qed

text \<open>
  Claim C6 as stated fails: in the network that \<open>Simulation\<close> builds for one neuron and the
  delay \<open>1\<close>, the neuron crosses the threshold at step \<open>10\<close> with \<open>v = 4.4\<close>, and the row
  written at step \<open>10\<close> holds \<open>4\<close>, which is not above the threshold.
\<close>

theorem written_row_is_not_the_spiking_value:
  "Simulation_setup 1 [1] = Inr (one_synapse 0 1) \<and>
   0 \<in> set (spikes_at (one_synapse 0 1) 10) \<and>
   G_v_pre_reset_at (one_synapse 0 1) 10 ! 0 = 22 / 5 \<and>
   row_written_at (one_synapse 0 1) 10 ! 0 = 4 \<and>
   \<not> row_written_at (one_synapse 0 1) 10 ! 0 > 4.0"
proof -
  have w: "wf (one_synapse 0 1)" by (simp add: fresh_wf fresh_one_synapse)
  have g: "G_v (one_synapse 0 1) = [0]" by (simp add: one_synapse_def)
  have p: "G_v_pre_reset_at (one_synapse 0 1) 10 = [22 / 5]"
    by (simp add: G_v_pre_reset_at_wf[OF w] G_v_at_10 dt_ms_def)
  have s: "spikes_at (one_synapse 0 1) 10 = [0]"
    by (simp add: spikes_at_wf[OF w] p g)
  have r: "row_written_at (one_synapse 0 1) 10 = [4]"
    by (simp add: row_written_at_wf[OF w] G_v_at_10)
  show ?thesis by (simp add: setup_one_neuron p s r)
qed

subsection \<open>Bounds\<close>

lemma drawn_delays_range:
  "drawn_delays nb delays \<Longrightarrow>
     list_all (\<lambda>d. 1 \<le> d \<and> d \<le> delay_max - 1 \<and> d \<le> 9 \<and> d \<noteq> delay_max) delays"
  by (auto simp: drawn_delays_def list_all_iff delay_max_def)

text \<open>
  Claim C10. For \<open>buffer_size \<ge> 1\<close> and any pointer and delay, the rows
  \<open>(buffer_pointer + 1) % buffer_size\<close> and \<open>(buffer_pointer - delay_step) % buffer_size\<close> lie
  in \<open>[0, buffer_size)\<close> and index the buffer without an error. Every delay the generator
  returns lies in \<open>[1, delay_max - 1] = [1, 9]\<close> and is never \<open>delay_max\<close>. So for at least one
  neuron \<open>Simulation\<close> returns after any number of time steps, no access having raised
  \<open>IndexError\<close>, with \<open>buffer_size \<le> delay_max\<close>, the shapes intact and every source index and
  delay in range.
\<close>

theorem no_access_out_of_bounds:
  assumes "1 \<le> nb_neurons" and "drawn_delays nb_neurons delays"
  shows "(1 \<le> bs \<longrightarrow>
        0 \<le> np_mod (p + 1) bs \<and> np_mod (p + 1) bs < bs \<and>
        0 \<le> np_mod (p - d) bs \<and> np_mod (p - d) bs < bs \<and>
        np_index (nat bs) (np_mod (p + 1) bs) = Inr (nat (np_mod (p + 1) bs)) \<and>
        np_index (nat bs) (np_mod (p - d) bs) = Inr (nat (np_mod (p - d) bs))) \<and>
     list_all (\<lambda>d. 1 \<le> d \<and> d \<le> delay_max - 1 \<and> d \<le> 9 \<and> d \<noteq> delay_max) delays \<and>
     (\<exists>s. Simulation nb_neurons delays n = Inr s \<and> wf s \<and>
        buffer_size s = 1 + Max (set delays) \<and> buffer_size s \<le> delay_max \<and>
        length (G_v s) = nat nb_neurons \<and>
        list_all (\<lambda>c. S_i c < nat nb_neurons \<and> 1 \<le> S_delay_step c \<and>
                    S_delay_step c \<le> buffer_size s - 1) (S_synapses s))"
proof -
  have 1: "0 \<le> np_mod (p + 1) bs \<and> np_mod (p + 1) bs < bs \<and>
        0 \<le> np_mod (p - d) bs \<and> np_mod (p - d) bs < bs \<and>
        np_index (nat bs) (np_mod (p + 1) bs) = Inr (nat (np_mod (p + 1) bs)) \<and>
        np_index (nat bs) (np_mod (p - d) bs) = Inr (nat (np_mod (p - d) bs))"
    if "1 \<le> bs"
    using that by (simp add: np_mod_pos np_index_in_range)
  have 2: "list_all (\<lambda>d. 1 \<le> d \<and> d \<le> delay_max - 1 \<and> d \<le> 9 \<and> d \<noteq> delay_max) delays"
    using assms(2) by (rule drawn_delays_range)
  obtain s0 where s0: "Simulation_setup nb_neurons delays = Inr s0"
    using setup_drawn[OF assms] by blast
  have pos: "list_all (\<lambda>d. 1 \<le> d) delays" using assms(2) by (rule drawn_delays_positive)
  have f: "fresh s0" and ok: "delays_ok s0" using s0 pos by (rule setup_fresh)+
  have w: "wf s0" using f by (rule fresh_wf)
  let ?s = "state_at s0 n"
  have run: "Simulation nb_neurons delays n = Inr ?s"
    by (simp add: Simulation_def s0 run_ticks_wf[OF w])
  have bs: "buffer_size ?s = 1 + Max (set delays)"
    using s0 by (simp add: state_at_static setup_fields)
  have ne: "delays \<noteq> []" using s0 by (rule setup_fields)
  have "Max (set delays) \<in> set delays" using ne by (intro Max_in) simp_all
  then have "Max (set delays) \<le> 9" using 2 by (simp add: list_all_iff)
  then have le: "buffer_size ?s \<le> delay_max" using bs by (simp add: delay_max_def)
  have len: "length (G_v ?s) = nat nb_neurons"
    using s0 by (simp add: state_at_static setup_fields)
  have syn: "list_all (\<lambda>c. S_i c < nat nb_neurons \<and> 1 \<le> S_delay_step c \<and>
                    S_delay_step c \<le> buffer_size ?s - 1) (S_synapses ?s)"
    unfolding list_all_length
  proof (intro allI impI)
    fix k assume "k < length (S_synapses ?s)"
    then have k: "k < length (S_synapses s0)" by (simp add: synapses_length)
    then have c: "S_synapses s0 ! k \<in> set (S_synapses s0)" by simp
    have "S_i (S_synapses s0 ! k) < nat nb_neurons"
      using s0 c by (rule setup_delay_steps)
    moreover have "1 \<le> S_delay_step (S_synapses s0 ! k) \<and>
        S_delay_step (S_synapses s0 ! k) \<le> buffer_size s0 - 1"
      using ok c by (simp add: delays_ok_def list_all_iff)
    ultimately show "S_i (S_synapses ?s ! k) < nat nb_neurons \<and>
        1 \<le> S_delay_step (S_synapses ?s ! k) \<and>
        S_delay_step (S_synapses ?s ! k) \<le> buffer_size ?s - 1"
      using k by (simp add: synapse_static state_at_static)
  qed
  have 3: "\<exists>s. Simulation nb_neurons delays n = Inr s \<and> wf s \<and>
        buffer_size s = 1 + Max (set delays) \<and> buffer_size s \<le> delay_max \<and>
        length (G_v s) = nat nb_neurons \<and>
        list_all (\<lambda>c. S_i c < nat nb_neurons \<and> 1 \<le> S_delay_step c \<and>
                    S_delay_step c \<le> buffer_size s - 1) (S_synapses s)"
    using run wf_state_at[OF w, of n] bs le len syn by blast
  show ?thesis using 1 2 3 by blast
qed

text \<open>Two neurons, the delays \<open>1, 9, 3, 2\<close> and \<open>25\<close> time steps; the row of a delay of \<open>9\<close>
  at pointer \<open>0\<close>.\<close>

theorem no_access_out_of_bounds_witness:
  "(1::int) \<le> 2 \<and> drawn_delays 2 [1, 9, 3, 2] \<and>
   np_mod (0 - 9) 10 = 1 \<and> np_index 10 (np_mod (0 - 9) 10) = Inr 1 \<and>
   (\<exists>s. Simulation 2 [1, 9, 3, 2] 25 = Inr s \<and> buffer_size s = 10)"
proof -
  have n: "(1::int) \<le> 2" by simp
  have d: "drawn_delays 2 [1, 9, 3, 2]" by (simp add: drawn_delays_def delay_max_def)
  have m: "np_mod (0 - 9) 10 = 1" by (simp add: np_mod_def)
  show ?thesis
    using n d m no_access_out_of_bounds[OF n d, of 10 0 9 25]
    by auto
qed

end
